theory Spec2Isabelle
  imports Main "HOL-Library.Multiset"
begin

section \<open>Data model of rescheduler.go\<close>

text \<open>
  The objects of the Kubernetes API that rescheduler.go reads and writes, with the
  fields the file uses. A Go pointer that may be nil is an option
  (\<open>OwnerReference.Controller\<close> is a \<open>*bool\<close>); a Go \<open>error\<close> is an
  \<open>err option\<close>, \<open>None\<close> being nil.
\<close>

datatype err =
    PodCannotBeRescheduled string
  | External string

datatype fault = NilPointerDereference | IndexOutOfRange

record ownerReference =
  orKind :: string
  orController :: "bool option"

record pod =
  podNamespace :: string
  podName :: string
  podNodeName :: string
  podAnnotations :: "string \<rightharpoonup> string"
  podOwnerReferences :: "ownerReference list"

record taint =
  taintKey :: string
  taintValue :: string
  taintEffect :: string

record node =
  nodeName :: string
  nodeTaints :: "taint list"

record nodeInfo =
  niNode :: node
  niPods :: "pod list"

text \<open>\<open>podID\<close>: namespace, a slash, name.\<close>

definition podID :: "pod \<Rightarrow> string" where
  "podID p = podNamespace p @ ''/'' @ podName p"

text \<open>Indexing a Go map of strings: a missing key reads as the empty string.\<close>

definition annotation :: "pod \<Rightarrow> string \<Rightarrow> string" where
  "annotation p k = (case podAnnotations p k of None \<Rightarrow> [] | Some v \<Rightarrow> v)"

definition safeToEvictKey :: string where
  "safeToEvictKey = ''cluster-autoscaler.kubernetes.io/safe-to-evict''"

section \<open>The placement planner\<close>

text \<open>
  The predicate checker and the cluster snapshot are library objects. They are
  parameters here: \<open>chk s pod name\<close> is \<open>CheckPredicates\<close> (nil when the pod fits),
  \<open>add s pod name\<close> is \<open>AddPod\<close>, with the snapshot passed through.

  \<open>findSpotNodeForPod\<close> gets the pod by pointer and writes its \<open>Spec.NodeName\<close> at
  the top of every iteration, so the function returns the pod as it leaves it.
\<close>

fun findSpotNodeForPod ::
  "('s \<Rightarrow> pod \<Rightarrow> string \<Rightarrow> err option) \<Rightarrow> 's \<Rightarrow> nodeInfo list \<Rightarrow> pod \<Rightarrow> string \<times> pod"
where
  "findSpotNodeForPod chk s [] p = ([], p)"
| "findSpotNodeForPod chk s (ni # nis) p =
     (let p' = p\<lparr>podNodeName := []\<rparr> in
      case chk s p' (nodeName (niNode ni)) of
        None \<Rightarrow> (nodeName (niNode ni), p')
      | Some e \<Rightarrow> findSpotNodeForPod chk s nis p')"

text \<open>
  \<open>canDrainNode\<close> returns its error, the snapshot after its \<open>AddPod\<close> calls and the
  pods as the calls of \<open>findSpotNodeForPod\<close> left them (pods after the one that
  aborts the loop are not touched).
\<close>

fun canDrainNode ::
  "('s \<Rightarrow> pod \<Rightarrow> string \<Rightarrow> err option) \<Rightarrow> ('s \<Rightarrow> pod \<Rightarrow> string \<Rightarrow> 's) \<Rightarrow> 's \<Rightarrow>
   nodeInfo list \<Rightarrow> pod list \<Rightarrow> err option \<times> 's \<times> pod list"
where
  "canDrainNode chk add s nodes [] = (None, s, [])"
| "canDrainNode chk add s nodes (p # ps) =
     (case findSpotNodeForPod chk s nodes p of
        (nm, p') \<Rightarrow>
          if nm = [] then
            (if annotation p' safeToEvictKey = ''false''
             then (Some (PodCannotBeRescheduled (podID p')), s, p' # ps)
             else (case canDrainNode chk add s nodes ps of
                     (e, s', ps') \<Rightarrow> (e, s', p' # ps')))
          else (case canDrainNode chk add (add s p' nm) nodes ps of
                  (e, s', ps') \<Rightarrow> (e, s', p' # ps')))"

section \<open>The daemon-set exclusion of the movable set\<close>

text \<open>
  The inner loop of \<open>run\<close> over \<open>pod.GetOwnerReferences()\<close>. The condition
  \<open>*owner.Controller && owner.Kind == "DaemonSet"\<close> dereferences the pointer first,
  for every owner the loop reaches; a nil pointer there is a run-time panic. The
  loop stops at the first owner that satisfies the condition.
\<close>

fun controlledByDaemonSet :: "ownerReference list \<Rightarrow> fault + bool" where
  "controlledByDaemonSet [] = Inr False"
| "controlledByDaemonSet (owner # owners) =
     (case orController owner of
        None \<Rightarrow> Inl NilPointerDereference
      | Some c \<Rightarrow>
          if c \<and> orKind owner = ''DaemonSet'' then Inr True
          else controlledByDaemonSet owners)"

text \<open>
  The loop over \<open>allPods\<close> that builds \<open>podsForDeletion\<close> by \<open>append\<close>; the second
  argument is the slice built so far.
\<close>

fun podsForDeletionLoop :: "pod list \<Rightarrow> pod list \<Rightarrow> fault + pod list" where
  "podsForDeletionLoop [] acc = Inr acc"
| "podsForDeletionLoop (p # ps) acc =
     (case controlledByDaemonSet (podOwnerReferences p) of
        Inl f \<Rightarrow> Inl f
      | Inr c \<Rightarrow>
          if c then podsForDeletionLoop ps acc
          else podsForDeletionLoop ps (acc @ [p]))"

definition podsForDeletion :: "pod list \<Rightarrow> fault + pod list" where
  "podsForDeletion allPods = podsForDeletionLoop allPods []"

section \<open>What a tick does to the outside\<close>

text \<open>
  The calls a tick makes to its collaborators and the branches it takes, in order.
  \<open>NodeUpdate n ok\<close> is one call of \<open>Nodes().Update\<close> with the node as sent and
  whether it succeeded; \<open>Planned ni e\<close> is one call of \<open>canDrainNode\<close> for the
  on-demand node \<open>ni\<close> with its result; \<open>Drained ni pods e\<close> is one call of
  \<open>drainNode\<close> with its result.
\<close>

datatype event =
    WaitingDrainDelay
  | ListUnschedulableFailed err
  | WaitingUnschedulable
  | ListNodesFailed err
  | BuildNodeMapFailed err
  | NodeMapBuilt
  | ListPDBsFailed err
  | SpotNodeMetrics
  | TaintReconcile
  | NodeUpdate node bool
  | GetPodsFailed nodeInfo err
  | NoPods nodeInfo
  | Planned nodeInfo "err option"
  | Drained nodeInfo "pod list" "err option"

fun isDrained :: "event \<Rightarrow> bool" where
  "isDrained (Drained ni ps e) = True"
| "isDrained ev = False"

fun isPlanned :: "event \<Rightarrow> bool" where
  "isPlanned (Planned ni e) = True"
| "isPlanned ev = False"

section \<open>The taint reconciler\<close>

text \<open>
  The inner loop of \<open>removeTaintFromAllSpotNodes\<close> for one spot node. A Go
  \<open>range\<close> over a slice evaluates the slice once: the loop visits the indices of
  the slice as it was, and reads each element from the backing array as it is when
  the index is reached. The body works on the field \<open>Node.Spec.Taints\<close>, which is
  the first \<open>cur\<close> elements of the same backing array \<open>arr\<close>: it writes
  \<open>Taints[i]\<close>, which panics when \<open>i\<close> is not below \<open>cur\<close>, and cuts the slice by
  one. Then it sends the node; after a failed update the \<open>continue\<close> goes on with
  the next index, as a successful one does.
\<close>

fun removeTaintLoop ::
  "(node \<Rightarrow> node option \<times> err option) \<Rightarrow> string \<Rightarrow> node \<Rightarrow> nat list \<Rightarrow> taint list \<Rightarrow> nat \<Rightarrow>
   event list \<times> (fault + taint list \<times> nat)"
where
  "removeTaintLoop upd key nd [] arr cur = ([], Inr (arr, cur))"
| "removeTaintLoop upd key nd (i # is) arr cur =
     (if taintKey (arr ! i) = key then
        (if i < cur then
           (let arr' = arr[i := arr ! (cur - 1)];
                cur' = cur - 1;
                nd' = nd\<lparr>nodeTaints := take cur' arr'\<rparr>;
                ok = (case upd nd' of (updated, e) \<Rightarrow> e = None \<and> updated \<noteq> None)
            in case removeTaintLoop upd key nd is arr' cur' of
                 (evs, r) \<Rightarrow> (NodeUpdate nd' ok # evs, r))
         else ([], Inl IndexOutOfRange))
      else removeTaintLoop upd key nd is arr cur)"

definition removeTaintFromNode ::
  "(node \<Rightarrow> node option \<times> err option) \<Rightarrow> string \<Rightarrow> node \<Rightarrow> event list \<times> (fault + node)"
where
  "removeTaintFromNode upd key nd =
     (case removeTaintLoop upd key nd [0 ..< length (nodeTaints nd)] (nodeTaints nd)
             (length (nodeTaints nd)) of
        (evs, Inl f) \<Rightarrow> (evs, Inl f)
      | (evs, Inr (arr, cur)) \<Rightarrow> (evs, Inr (nd\<lparr>nodeTaints := take cur arr\<rparr>)))"

text \<open>The outer loop over the spot nodes; it returns them as the loop leaves them.\<close>

fun removeTaintNodes ::
  "(node \<Rightarrow> node option \<times> err option) \<Rightarrow> string \<Rightarrow> nodeInfo list \<Rightarrow>
   event list \<times> (fault + nodeInfo list)"
where
  "removeTaintNodes upd key [] = ([], Inr [])"
| "removeTaintNodes upd key (ni # nis) =
     (case removeTaintFromNode upd key (niNode ni) of
        (evs, Inl f) \<Rightarrow> (evs, Inl f)
      | (evs, Inr nd) \<Rightarrow>
          (case removeTaintNodes upd key nis of
             (evs', Inl f) \<Rightarrow> (evs @ evs', Inl f)
           | (evs', Inr nis') \<Rightarrow> (evs @ evs', Inr (ni\<lparr>niNode := nd\<rparr> # nis'))))"

definition removeTaintFromAllSpotNodes ::
  "(node \<Rightarrow> node option \<times> err option) \<Rightarrow> string \<Rightarrow> nodeInfo list \<Rightarrow>
   event list \<times> (fault + nodeInfo list)"
where
  "removeTaintFromAllSpotNodes upd key spotNodeInfos =
     (if key = [] then ([], Inr spotNodeInfos)
      else removeTaintNodes upd key spotNodeInfos)"

section \<open>The control loop\<close>

text \<open>
  What one tick observes of its collaborators: the clock readings, the results of
  the listers, of \<open>nodes.NewNodeMap\<close> (the on-demand and the spot sequence),
  of \<open>GetPodsForDeletionOnNodeDrain\<close> (pods, blocking pod, error), the predicate
  checker, the snapshot's operations, the node update of the API and
  \<open>scaler.DrainNode\<close>. \<open>timeNow\<close> is the clock as \<open>time.Until\<close> reads it at the
  cooldown check, \<open>timeAfterDrain\<close> the clock as read once \<open>drainNode\<close> has
  returned (the loop breaks right after that reading). Instants and durations are
  integers (nanoseconds). The arguments that a tick does not change (the client,
  the disruption budgets, the flags of the drain helper) are part of the functions.
\<close>

record 's world =
  timeNow :: int
  unschedulablePods :: "pod list \<times> err option"
  allNodes :: "node list \<times> err option"
  newNodeMap :: "node list \<Rightarrow> (nodeInfo list \<times> nodeInfo list) \<times> err option"
  allPDBs :: "err option"
  getClusterSnapshot :: "nodeInfo list \<Rightarrow> 's"
  getPodsForDeletion :: "pod list \<Rightarrow> pod list \<times> pod option \<times> err option"
  checkPredicates :: "'s \<Rightarrow> pod \<Rightarrow> string \<Rightarrow> err option"
  fork :: "'s \<Rightarrow> 's"
  revert :: "'s \<Rightarrow> 's"
  addPod :: "'s \<Rightarrow> pod \<Rightarrow> string \<Rightarrow> 's"
  updateNode :: "node \<Rightarrow> node option \<times> err option"
  scalerDrainNode :: "node \<Rightarrow> pod list \<Rightarrow> err option"
  timeAfterDrain :: int

record config =
  nodeDrainDelay :: int
  spotTaintToBeRemoved :: string

text \<open>\<open>drainNode\<close> hands the error of \<open>scaler.DrainNode\<close> on (and counts it).\<close>

definition drainNode :: "'s world \<Rightarrow> node \<Rightarrow> pod list \<Rightarrow> err option" where
  "drainNode w nd pods = scalerDrainNode w nd pods"

text \<open>
  The body of the loop over the on-demand nodes, for one node: it ends in
  \<open>continue\<close> (with the snapshot as it leaves it), in \<open>break\<close> (with the new
  \<open>nextDrainTime\<close>) or in a panic. The blocking pod of the drain helper is only
  logged. Log lines and metric updates are left out where no event stands for them.
\<close>

datatype 's step =
    Continue "event list" 's
  | Break "event list" int
  | Crash "event list" fault

definition processNode ::
  "'s world \<Rightarrow> config \<Rightarrow> nodeInfo list \<Rightarrow> 's \<Rightarrow> nodeInfo \<Rightarrow> 's step"
where
  "processNode w cfg spotNodeInfos s ni =
     (case getPodsForDeletion w (niPods ni) of
        (allPods, blockingPod, e) \<Rightarrow>
          (case e of
             Some er \<Rightarrow> Continue [GetPodsFailed ni er] s
           | None \<Rightarrow>
               (case podsForDeletion allPods of
                  Inl f \<Rightarrow> Crash [] f
                | Inr pods \<Rightarrow>
                    if length pods < 1 then Continue [NoPods ni] s
                    else
                      (case canDrainNode (checkPredicates w) (addPod w) (fork w s)
                              spotNodeInfos pods of
                         (Some er, s', pods') \<Rightarrow> Continue [Planned ni (Some er)] (revert w s')
                       | (None, s', pods') \<Rightarrow>
                           Break [Planned ni None,
                                  Drained ni pods' (drainNode w (niNode ni) pods')]
                             (timeAfterDrain w + nodeDrainDelay cfg)))))"

text \<open>
  The loop over the on-demand nodes: the events, the panic if there is one, and the
  new \<open>nextDrainTime\<close> if the loop sets it.
\<close>

fun nodeLoop ::
  "'s world \<Rightarrow> config \<Rightarrow> nodeInfo list \<Rightarrow> 's \<Rightarrow> nodeInfo list \<Rightarrow>
   event list \<times> fault option \<times> int option"
where
  "nodeLoop w cfg spotNodeInfos s [] = ([], None, None)"
| "nodeLoop w cfg spotNodeInfos s (ni # nis) =
     (case processNode w cfg spotNodeInfos s ni of
        Continue evs s' \<Rightarrow>
          (case nodeLoop w cfg spotNodeInfos s' nis of
             (evs', f, t) \<Rightarrow> (evs @ evs', f, t))
      | Break evs t \<Rightarrow> (evs, None, Some t)
      | Crash evs f \<Rightarrow> (evs, Some f, None))"


text \<open>
  One tick: the body of the \<open>case <-time.After(*housekeepingInterval)\<close> of
  \<open>run\<close>, given the \<open>nextDrainTime\<close> it starts with. The result is what the
  tick did, the panic that ended it if there was one, and the \<open>nextDrainTime\<close>
  it leaves. \<open>time.Until(nextDrainTime)\<close> is \<open>nextDrainTime\<close> less the clock.
\<close>

record tickResult =
  events :: "event list"
  crashed :: "fault option"
  nextDrainTime :: int

definition tick :: "'s world \<Rightarrow> config \<Rightarrow> int \<Rightarrow> tickResult" where
  "tick w cfg ndt =
     (if ndt - timeNow w > 0 then
        \<lparr>events = [WaitingDrainDelay], crashed = None, nextDrainTime = ndt\<rparr>
      else
        (case unschedulablePods w of
           (unschedulable, e) \<Rightarrow>
             (let ev = (case e of None \<Rightarrow> [] | Some er \<Rightarrow> [ListUnschedulableFailed er]) in
              if length unschedulable > 0 then
                \<lparr>events = ev @ [WaitingUnschedulable], crashed = None, nextDrainTime = ndt\<rparr>
              else
                (case allNodes w of
                   (ns, Some er) \<Rightarrow>
                     \<lparr>events = ev @ [ListNodesFailed er], crashed = None, nextDrainTime = ndt\<rparr>
                 | (ns, None) \<Rightarrow>
                     (case newNodeMap w ns of
                        (nm, Some er) \<Rightarrow>
                          \<lparr>events = ev @ [BuildNodeMapFailed er], crashed = None,
                           nextDrainTime = ndt\<rparr>
                      | ((onDemandNodeInfos, spotNodeInfos), None) \<Rightarrow>
                          (case allPDBs w of
                             Some er \<Rightarrow>
                               \<lparr>events = ev @ [NodeMapBuilt, ListPDBsFailed er], crashed = None,
                                nextDrainTime = ndt\<rparr>
                           | None \<Rightarrow>
                               (let spotSnapshot = getClusterSnapshot w spotNodeInfos;
                                    ev' = ev @ [NodeMapBuilt, SpotNodeMetrics, TaintReconcile]
                                in case removeTaintFromAllSpotNodes (updateNode w)
                                          (spotTaintToBeRemoved cfg) spotNodeInfos of
                                     (tev, Inl f) \<Rightarrow>
                                       \<lparr>events = ev' @ tev, crashed = Some f,
                                        nextDrainTime = ndt\<rparr>
                                   | (tev, Inr spotNodeInfos') \<Rightarrow>
                                       (case nodeLoop w cfg spotNodeInfos' spotSnapshot
                                               onDemandNodeInfos of
                                          (nev, f, t) \<Rightarrow>
                                            \<lparr>events = ev' @ tev @ nev, crashed = f,
                                             nextDrainTime =
                                               (case t of None \<Rightarrow> ndt | Some t' \<Rightarrow> t')\<rparr>))))))))"

text \<open>
  The loop of \<open>run\<close> over the ticks that the timer fires, each with what it
  observes, from the \<open>nextDrainTime\<close> that \<open>run\<close> starts with (the clock at
  start-up); a panic ends the process.
\<close>

fun run :: "config \<Rightarrow> int \<Rightarrow> 's world list \<Rightarrow> tickResult list" where
  "run cfg ndt [] = []"
| "run cfg ndt (w # ws) =
     (let r = tick w cfg ndt in
      r # (case crashed r of None \<Rightarrow> run cfg (nextDrainTime r) ws | Some f \<Rightarrow> []))"

section \<open>The planner in the words of the specification\<close>

text \<open>
  Section 4.3 of the specification: for each pod in input order, clear the
  assigned node in the candidate, walk the spot nodes in the given order, and the
  first node whose predicates accept the pod wins; on success add the pod to the
  snapshot, so that the next pods see it; if no node accepts and the pod's
  safe-to-evict annotation is "false", fail, otherwise go on. \<open>plannerSpec\<close>
  is this reading (\<open>None\<close> is failure, \<open>Some\<close> the snapshot reached); it is
  compared with \<open>canDrainNode\<close> below.
\<close>

definition firstAccepting ::
  "('s \<Rightarrow> pod \<Rightarrow> string \<Rightarrow> err option) \<Rightarrow> 's \<Rightarrow> nodeInfo list \<Rightarrow> pod \<Rightarrow> nodeInfo option"
where
  "firstAccepting chk s nodes c = find (\<lambda>ni. chk s c (nodeName (niNode ni)) = None) nodes"

fun plannerSpec ::
  "('s \<Rightarrow> pod \<Rightarrow> string \<Rightarrow> err option) \<Rightarrow> ('s \<Rightarrow> pod \<Rightarrow> string \<Rightarrow> 's) \<Rightarrow> 's \<Rightarrow>
   nodeInfo list \<Rightarrow> pod list \<Rightarrow> 's option"
where
  "plannerSpec chk add s nodes [] = Some s"
| "plannerSpec chk add s nodes (p # ps) =
     (let c = p\<lparr>podNodeName := []\<rparr> in
      case firstAccepting chk s nodes c of
        Some ni \<Rightarrow> plannerSpec chk add (add s c (nodeName (niNode ni))) nodes ps
      | None \<Rightarrow>
          if annotation p safeToEvictKey = ''false'' then None
          else plannerSpec chk add s nodes ps)"

section \<open>Concrete clusters\<close>

text \<open>
  Two spot nodes, two on-demand nodes with one replicated pod each, and a pod
  annotated safe-to-evict "false".
\<close>

definition spotA :: nodeInfo where
  "spotA = \<lparr>niNode = \<lparr>nodeName = ''spot-a'', nodeTaints = []\<rparr>, niPods = []\<rparr>"

definition spotB :: nodeInfo where
  "spotB = \<lparr>niNode = \<lparr>nodeName = ''spot-b'', nodeTaints = []\<rparr>, niPods = []\<rparr>"

definition podWeb :: pod where
  "podWeb = \<lparr>podNamespace = ''default'', podName = ''web-1'', podNodeName = ''ondemand-1'',
     podAnnotations = Map.empty,
     podOwnerReferences = [\<lparr>orKind = ''ReplicaSet'', orController = Some True\<rparr>]\<rparr>"

definition podApi :: pod where
  "podApi = \<lparr>podNamespace = ''default'', podName = ''api-1'', podNodeName = ''ondemand-2'',
     podAnnotations = Map.empty,
     podOwnerReferences = [\<lparr>orKind = ''ReplicaSet'', orController = Some True\<rparr>]\<rparr>"

definition podDb :: pod where
  "podDb = \<lparr>podNamespace = ''default'', podName = ''db-0'', podNodeName = ''ondemand-3'',
     podAnnotations = [safeToEvictKey \<mapsto> ''false''],
     podOwnerReferences = [\<lparr>orKind = ''StatefulSet'', orController = Some True\<rparr>]\<rparr>"

definition onDemand1 :: nodeInfo where
  "onDemand1 = \<lparr>niNode = \<lparr>nodeName = ''ondemand-1'', nodeTaints = []\<rparr>, niPods = [podWeb]\<rparr>"

definition onDemand2 :: nodeInfo where
  "onDemand2 = \<lparr>niNode = \<lparr>nodeName = ''ondemand-2'', nodeTaints = []\<rparr>, niPods = [podApi]\<rparr>"

definition onDemand3 :: nodeInfo where
  "onDemand3 = \<lparr>niNode = \<lparr>nodeName = ''ondemand-3'', nodeTaints = []\<rparr>, niPods = [podDb]\<rparr>"

text \<open>
  A snapshot for these clusters: the names of the nodes that were given a pod, and
  the copy that \<open>Fork\<close> keeps for \<open>Revert\<close>. With \<open>oneSlot\<close> a node takes one pod.
\<close>

type_synonym snap = "string list \<times> string list"

definition oneSlot :: "snap \<Rightarrow> pod \<Rightarrow> string \<Rightarrow> err option" where
  "oneSlot s p n = (if n \<in> set (fst s) then Some (External ''node is full'') else None)"

definition place :: "snap \<Rightarrow> pod \<Rightarrow> string \<Rightarrow> snap" where
  "place s p n = (fst s @ [n], snd s)"

definition exampleWorld :: "snap world" where
  "exampleWorld =
     \<lparr>timeNow = 100,
      unschedulablePods = ([], None),
      allNodes = ([niNode onDemand1, niNode onDemand2, niNode spotA, niNode spotB], None),
      newNodeMap = (\<lambda>ns. (([onDemand1, onDemand2], [spotA, spotB]), None)),
      allPDBs = None,
      getClusterSnapshot = (\<lambda>nis. ([], [])),
      getPodsForDeletion = (\<lambda>ps. (ps, None, None)),
      checkPredicates = oneSlot,
      fork = (\<lambda>s. (fst s, fst s)),
      revert = (\<lambda>s. (snd s, snd s)),
      addPod = place,
      updateNode = (\<lambda>n. (Some n, None)),
      scalerDrainNode = (\<lambda>n ps. None),
      timeAfterDrain = 130\<rparr>"

definition exampleConfig :: config where
  "exampleConfig = \<lparr>nodeDrainDelay = 600, spotTaintToBeRemoved = []\<rparr>"

text \<open>The same cluster when the drain fails.\<close>

definition failedDrainWorld :: "snap world" where
  "failedDrainWorld =
     exampleWorld\<lparr>scalerDrainNode := (\<lambda>n ps. Some (External ''eviction timed out''))\<rparr>"

text \<open>The same cluster with three pods that are waiting for a node.\<close>

definition pendingWorld :: "snap world" where
  "pendingWorld = exampleWorld\<lparr>unschedulablePods := ([podWeb, podApi, podDb], None)\<rparr>"

text \<open>The same cluster when the lister of the unschedulable pods fails.\<close>

definition listFailedWorld :: "snap world" where
  "listFailedWorld =
     exampleWorld\<lparr>unschedulablePods := ([], Some (External ''cache is not synced''))\<rparr>"

text \<open>
  A cluster whose one on-demand node holds the annotated pod, with room on a spot
  node.
\<close>

definition blockerWorld :: "snap world" where
  "blockerWorld =
     exampleWorld\<lparr>allNodes := ([niNode onDemand3, niNode spotA], None),
                  newNodeMap := (\<lambda>ns. (([onDemand3], [spotA]), None))\<rparr>"

text \<open>
  Spot nodes with taints. Kubernetes keeps the taints of a node apart by key and
  effect, so one key may be there twice, with two effects.
\<close>

definition taintPreemptNoSchedule :: taint where
  "taintPreemptNoSchedule =
     \<lparr>taintKey = ''preempt'', taintValue = [], taintEffect = ''NoSchedule''\<rparr>"

definition taintPreemptNoExecute :: taint where
  "taintPreemptNoExecute =
     \<lparr>taintKey = ''preempt'', taintValue = [], taintEffect = ''NoExecute''\<rparr>"

definition taintGpu :: taint where
  "taintGpu = \<lparr>taintKey = ''gpu'', taintValue = [], taintEffect = ''NoSchedule''\<rparr>"

definition spotX :: nodeInfo where
  "spotX = \<lparr>niNode = \<lparr>nodeName = ''spot-x'', nodeTaints = [taintPreemptNoSchedule, taintGpu]\<rparr>,
            niPods = []\<rparr>"

definition spotY :: nodeInfo where
  "spotY = \<lparr>niNode = \<lparr>nodeName = ''spot-y'',
                        nodeTaints = [taintPreemptNoSchedule, taintPreemptNoExecute]\<rparr>,
            niPods = []\<rparr>"

definition spotZ :: nodeInfo where
  "spotZ = \<lparr>niNode = \<lparr>nodeName = ''spot-z'',
                        nodeTaints = [taintGpu, taintPreemptNoSchedule, taintPreemptNoExecute]\<rparr>,
            niPods = []\<rparr>"

definition updateOk :: "node \<Rightarrow> node option \<times> err option" where
  "updateOk n = (Some n, None)"

definition taintConfig :: config where
  "taintConfig = \<lparr>nodeDrainDelay = 600, spotTaintToBeRemoved = ''preempt''\<rparr>"

definition taintWorld :: "snap world" where
  "taintWorld =
     exampleWorld\<lparr>allNodes := ([niNode onDemand1, niNode spotX, niNode spotZ], None),
                  newNodeMap := (\<lambda>ns. (([onDemand1], [spotX, spotZ]), None)),
                  updateNode := updateOk\<rparr>"

text \<open>
  A pod whose owner reference leaves the optional field \<open>controller\<close> out, on an
  on-demand node.
\<close>

definition podJob :: pod where
  "podJob = \<lparr>podNamespace = ''default'', podName = ''job-1'', podNodeName = ''ondemand-4'',
     podAnnotations = Map.empty,
     podOwnerReferences = [\<lparr>orKind = ''Workflow'', orController = None\<rparr>]\<rparr>"

definition onDemand4 :: nodeInfo where
  "onDemand4 = \<lparr>niNode = \<lparr>nodeName = ''ondemand-4'', nodeTaints = []\<rparr>, niPods = [podJob]\<rparr>"

definition nilControllerWorld :: "snap world" where
  "nilControllerWorld =
     exampleWorld\<lparr>allNodes := ([niNode onDemand4, niNode spotA], None),
                  newNodeMap := (\<lambda>ns. (([onDemand4], [spotA]), None))\<rparr>"

text \<open>A pod of a daemon set.\<close>

definition podLogs :: pod where
  "podLogs = \<lparr>podNamespace = ''kube-system'', podName = ''logs-x7'', podNodeName = ''ondemand-1'',
     podAnnotations = Map.empty,
     podOwnerReferences = [\<lparr>orKind = ''DaemonSet'', orController = Some True\<rparr>]\<rparr>"

text \<open>
  A cluster with one spot node and two on-demand nodes: the first holds a daemon-set
  pod only, the second a replicated pod and then the annotated pod. The spot node
  has room for the annotated pod until the pod before it is placed there.
\<close>

definition onDemand5 :: nodeInfo where
  "onDemand5 = \<lparr>niNode = \<lparr>nodeName = ''ondemand-5'', nodeTaints = []\<rparr>,
                niPods = [podWeb, podDb]\<rparr>"

definition onDemand6 :: nodeInfo where
  "onDemand6 = \<lparr>niNode = \<lparr>nodeName = ''ondemand-6'', nodeTaints = []\<rparr>, niPods = [podLogs]\<rparr>"

definition blockerFullWorld :: "snap world" where
  "blockerFullWorld =
     exampleWorld\<lparr>allNodes := ([niNode onDemand6, niNode onDemand5, niNode spotA], None),
                  newNodeMap := (\<lambda>ns. (([onDemand6, onDemand5], [spotA]), None))\<rparr>"

text \<open>
  A pod is owned by a daemon-set controller when one of its owner references has the
  controller flag set and the kind "DaemonSet".
\<close>

definition ownedByDaemonSet :: "pod \<Rightarrow> bool" where
  "ownedByDaemonSet p \<longleftrightarrow>
     (\<exists>owner\<in>set (podOwnerReferences p).
        orController owner = Some True \<and> orKind owner = ''DaemonSet'')"

text \<open>Three ticks of the example cluster: at 100, at 110 and at 730.\<close>

definition threeTicks :: "snap world list" where
  "threeTicks = [exampleWorld, exampleWorld\<lparr>timeNow := 110\<rparr>,
      exampleWorld\<lparr>timeNow := 730, timeAfterDrain := 760\<rparr>]"

section \<open>Facts about the planner\<close>

lemma findSpot_pod:
  "snd (findSpotNodeForPod chk s nodes p) = (if nodes = [] then p else p\<lparr>podNodeName := []\<rparr>)"
  by (induction nodes arbitrary: p) (auto simp: Let_def split: option.splits)

lemma findSpot_name:
  "fst (findSpotNodeForPod chk s nodes p) =
     (case firstAccepting chk s nodes (p\<lparr>podNodeName := []\<rparr>) of
        None \<Rightarrow> [] | Some ni \<Rightarrow> nodeName (niNode ni))"
  by (induction nodes arbitrary: p) (auto simp: Let_def firstAccepting_def split: option.splits)

lemma annotation_clear: "annotation (p\<lparr>podNodeName := x\<rparr>) k = annotation p k"
  by (simp add: annotation_def)

lemma firstAccepting_in: "firstAccepting chk s nodes c = Some ni \<Longrightarrow> ni \<in> set nodes"
  by (auto simp: firstAccepting_def find_Some_iff)


lemma canDrain_spec:
  assumes "\<forall>ni\<in>set nodes. nodeName (niNode ni) \<noteq> []"
  shows "plannerSpec chk add s nodes pods =
     (case canDrainNode chk add s nodes pods of
        (None, s', ps') \<Rightarrow> Some s' | (Some e, s', ps') \<Rightarrow> None)"
  using assms
proof (induction pods arbitrary: s)
  case Nil
  then show ?case by simp
next
  case (Cons p ps)
  obtain nm p' where fs: "findSpotNodeForPod chk s nodes p = (nm, p')" by force
  have nm: "nm = (case firstAccepting chk s nodes (p\<lparr>podNodeName := []\<rparr>) of
        None \<Rightarrow> [] | Some ni \<Rightarrow> nodeName (niNode ni))"
    using findSpot_name[of chk s nodes p] fs by simp
  have p': "p' = (if nodes = [] then p else p\<lparr>podNodeName := []\<rparr>)"
    using findSpot_pod[of chk s nodes p] fs by simp
  show ?case
  proof (cases "firstAccepting chk s nodes (p\<lparr>podNodeName := []\<rparr>)")
    case None
    then have "nm = []" using nm by simp
    then show ?thesis using None fs p' Cons.IH[of s] Cons.prems
      by (auto simp: Let_def annotation_clear split: prod.splits option.splits)
  next
    case (Some ni)
    then have "ni \<in> set nodes" by (rule firstAccepting_in)
    then have ne: "nm \<noteq> []" "nodes \<noteq> []" using nm Some Cons.prems by auto
    then show ?thesis using Some fs p' nm Cons.IH[of "add s p' nm"] Cons.prems
      by (auto simp: Let_def split: prod.splits option.splits)
  qed
qed







text \<open>What \<open>canDrainNode\<close> leaves of the pods it was given.\<close>

lemma canDrain_pods:
  "list_all2 (\<lambda>p' p. p' = p \<or> p' = p\<lparr>podNodeName := []\<rparr>)
     (snd (snd (canDrainNode chk add s nodes pods))) pods"
proof (induction pods arbitrary: s)
  case Nil
  then show ?case by simp
next
  case (Cons q qs)
  obtain nm q' where fs: "findSpotNodeForPod chk s nodes q = (nm, q')" by force
  have q': "q' = q \<or> q' = q\<lparr>podNodeName := []\<rparr>"
    using findSpot_pod[of chk s nodes q] fs by (auto split: if_splits)
  have refl: "list_all2 (\<lambda>p' p. p' = p \<or> p' = p\<lparr>podNodeName := []\<rparr>) qs qs"
    by (simp add: list_all2_refl)
  obtain e1 s1 r1 where c1: "canDrainNode chk add s nodes qs = (e1, s1, r1)"
    by (metis surj_pair)
  obtain e2 s2 r2 where c2: "canDrainNode chk add (add s q' nm) nodes qs = (e2, s2, r2)"
    by (metis surj_pair)
  have "list_all2 (\<lambda>p' p. p' = p \<or> p' = p\<lparr>podNodeName := []\<rparr>) r1 qs"
       "list_all2 (\<lambda>p' p. p' = p \<or> p' = p\<lparr>podNodeName := []\<rparr>) r2 qs"
    using Cons.IH[of s] Cons.IH[of "add s q' nm"] c1 c2 by simp_all
  then show ?case using fs q' refl c1 c2 by auto
qed

lemma canDrain_pods_cleared:
  "nodes \<noteq> [] \<Longrightarrow> fst (canDrainNode chk add s nodes pods) = None \<Longrightarrow>
   snd (snd (canDrainNode chk add s nodes pods)) = map (\<lambda>p. p\<lparr>podNodeName := []\<rparr>) pods"
proof (induction pods arbitrary: s)
  case Nil
  then show ?case by simp
next
  case (Cons q qs)
  obtain nm q' where fs: "findSpotNodeForPod chk s nodes q = (nm, q')" by force
  have q': "q' = q\<lparr>podNodeName := []\<rparr>"
    using findSpot_pod[of chk s nodes q] fs Cons.prems(1) by auto
  obtain e1 s1 r1 where c1: "canDrainNode chk add s nodes qs = (e1, s1, r1)"
    by (metis surj_pair)
  obtain e2 s2 r2 where c2: "canDrainNode chk add (add s q' nm) nodes qs = (e2, s2, r2)"
    by (metis surj_pair)
  show ?case
    using Cons.IH[of s] Cons.IH[of "add s q' nm"] Cons.prems fs q' c1 c2
    by (auto split: if_splits)
qed

section \<open>Facts about the tick\<close>

lemma removeTaintLoop_updates:
  "removeTaintLoop upd key nd is arr cur = (evs, r) \<Longrightarrow> ev \<in> set evs \<Longrightarrow> \<exists>n b. ev = NodeUpdate n b"
proof (induction "is" arbitrary: arr cur evs r)
  case Nil
  then show ?case by simp
next
  case (Cons i "is")
  show ?case
  proof (cases "taintKey (arr ! i) = key")
    case False
    with Cons.prems Cons.IH[of arr cur evs r] show ?thesis by simp
  next
    case True
    show ?thesis
    proof (cases "i < cur")
      case False
      with True Cons.prems show ?thesis by simp
    next
      case lt: True
      obtain evs' r' where rec:
        "removeTaintLoop upd key nd is (arr[i := arr ! (cur - 1)]) (cur - 1) = (evs', r')"
        by force
      with True lt Cons.prems have "ev \<in> set evs' \<or> (\<exists>n b. ev = NodeUpdate n b)"
        by (auto simp: Let_def)
      with Cons.IH[OF rec] show ?thesis by blast
    qed
  qed
qed

lemma removeTaintFromNode_updates:
  "ev \<in> set (fst (removeTaintFromNode upd key nd)) \<Longrightarrow> \<exists>n b. ev = NodeUpdate n b"
  using removeTaintLoop_updates[of upd key nd "[0 ..< length (nodeTaints nd)]" "nodeTaints nd" "length (nodeTaints nd)"]
  by (auto simp: removeTaintFromNode_def split: prod.splits sum.splits)

lemma removeTaintNodes_updates:
  "ev \<in> set (fst (removeTaintNodes upd key nis)) \<Longrightarrow> \<exists>n b. ev = NodeUpdate n b"
proof (induction nis)
  case Nil
  then show ?case by simp
next
  case (Cons ni nis)
  then show ?case
    using removeTaintFromNode_updates[of ev upd key "niNode ni"]
    by (auto split: prod.splits sum.splits)
qed

lemma removeTaintAll_updates:
  "ev \<in> set (fst (removeTaintFromAllSpotNodes upd key nis)) \<Longrightarrow> \<exists>n b. ev = NodeUpdate n b"
  using removeTaintNodes_updates[of ev upd key nis]
  by (auto simp: removeTaintFromAllSpotNodes_def split: if_splits)

lemma removeTaintFromNode_name:
  "removeTaintFromNode upd key nd = (evs, Inr nd') \<Longrightarrow> nodeName nd' = nodeName nd"
  by (auto simp: removeTaintFromNode_def split: prod.splits sum.splits)

lemma removeTaintNodes_names:
  "removeTaintNodes upd key nis = (evs, Inr nis') \<Longrightarrow>
   map (\<lambda>x. nodeName (niNode x)) nis' = map (\<lambda>x. nodeName (niNode x)) nis"
proof (induction nis arbitrary: evs nis')
  case Nil
  then show ?case by simp
next
  case (Cons ni nis)
  then show ?case
    by (auto split: prod.splits sum.splits dest: removeTaintFromNode_name)
qed

lemma removeTaintAll_names:
  "removeTaintFromAllSpotNodes upd key nis = (evs, Inr nis') \<Longrightarrow>
   map (\<lambda>x. nodeName (niNode x)) nis' = map (\<lambda>x. nodeName (niNode x)) nis"
  by (auto simp: removeTaintFromAllSpotNodes_def split: if_splits dest: removeTaintNodes_names)

lemma removeTaintAll_no_drain:
  "removeTaintFromAllSpotNodes upd key nis = (tev, x) \<Longrightarrow> filter isDrained tev = []"
proof -
  assume a: "removeTaintFromAllSpotNodes upd key nis = (tev, x)"
  have "\<forall>ev\<in>set tev. \<not> isDrained ev"
  proof
    fix ev assume "ev \<in> set tev"
    with a removeTaintAll_updates[of ev upd key nis] obtain n b where "ev = NodeUpdate n b"
      by auto
    then show "\<not> isDrained ev" by simp
  qed
  then show ?thesis by (simp add: filter_empty_conv)
qed

lemma processNode_cases:
  "(\<exists>evs s'. processNode w cfg spot s ni = Continue evs s' \<and> filter isDrained evs = [])
   \<or> (\<exists>ps. processNode w cfg spot s ni =
         Break [Planned ni None, Drained ni ps (drainNode w (niNode ni) ps)]
           (timeAfterDrain w + nodeDrainDelay cfg))
   \<or> (\<exists>f. processNode w cfg spot s ni = Crash [] f)"
  by (auto simp: processNode_def split: prod.splits option.splits sum.splits)


lemma nodeLoop_shape:
  "nodeLoop w cfg spot s nis = (evs, f, t) \<Longrightarrow>
     (filter isDrained evs = [] \<and> t = None)
     \<or> (\<exists>pre ni ps s'. evs = pre @ [Drained ni ps (drainNode w (niNode ni) ps)]
            \<and> filter isDrained pre = [] \<and> f = None \<and> ni \<in> set nis
            \<and> t = Some (timeAfterDrain w + nodeDrainDelay cfg)
            \<and> processNode w cfg spot s' ni =
                 Break [Planned ni None, Drained ni ps (drainNode w (niNode ni) ps)]
                   (timeAfterDrain w + nodeDrainDelay cfg))"
proof (induction nis arbitrary: s evs f t)
  case Nil
  then show ?case by simp
next
  case (Cons ni nis)
  from processNode_cases[of w cfg spot s ni] show ?case
  proof (elim disjE exE conjE)
    fix ev1 s'
    assume c: "processNode w cfg spot s ni = Continue ev1 s'" and nd: "filter isDrained ev1 = []"
    obtain ev2 f2 t2 where r: "nodeLoop w cfg spot s' nis = (ev2, f2, t2)"
      by (cases "nodeLoop w cfg spot s' nis") auto
    from Cons.prems c r have e: "evs = ev1 @ ev2" "f = f2" "t = t2" by auto
    from Cons.IH[OF r] show ?thesis
    proof
      assume "filter isDrained ev2 = [] \<and> t2 = None"
      then show ?thesis using e nd by simp
    next
      assume "\<exists>pre ni ps s'. ev2 = pre @ [Drained ni ps (drainNode w (niNode ni) ps)]
            \<and> filter isDrained pre = [] \<and> f2 = None \<and> ni \<in> set nis
            \<and> t2 = Some (timeAfterDrain w + nodeDrainDelay cfg)
            \<and> processNode w cfg spot s' ni =
                 Break [Planned ni None, Drained ni ps (drainNode w (niNode ni) ps)]
                   (timeAfterDrain w + nodeDrainDelay cfg)"
      then obtain pre n ps s2 where
        "ev2 = pre @ [Drained n ps (drainNode w (niNode n) ps)]"
        "filter isDrained pre = []" "f2 = None" "n \<in> set nis"
        "t2 = Some (timeAfterDrain w + nodeDrainDelay cfg)"
        "processNode w cfg spot s2 n =
                 Break [Planned n None, Drained n ps (drainNode w (niNode n) ps)]
                   (timeAfterDrain w + nodeDrainDelay cfg)" by blast
      then have "evs = (ev1 @ pre) @ [Drained n ps (drainNode w (niNode n) ps)]
          \<and> filter isDrained (ev1 @ pre) = [] \<and> f = None \<and> n \<in> set (ni # nis)
          \<and> t = Some (timeAfterDrain w + nodeDrainDelay cfg)
          \<and> processNode w cfg spot s2 n =
                 Break [Planned n None, Drained n ps (drainNode w (niNode n) ps)]
                   (timeAfterDrain w + nodeDrainDelay cfg)"
        using e nd by simp
      then show ?thesis by blast
    qed
  next
    fix ps
    assume b: "processNode w cfg spot s ni =
         Break [Planned ni None, Drained ni ps (drainNode w (niNode ni) ps)]
           (timeAfterDrain w + nodeDrainDelay cfg)"
    with Cons.prems have "evs = [Planned ni None] @ [Drained ni ps (drainNode w (niNode ni) ps)]
       \<and> filter isDrained [Planned ni None] = [] \<and> f = None \<and> ni \<in> set (ni # nis)
       \<and> t = Some (timeAfterDrain w + nodeDrainDelay cfg)" by auto
    with b show ?thesis by blast
  next
    fix f'
    assume "processNode w cfg spot s ni = Crash [] f'"
    with Cons.prems show ?thesis by auto
  qed
qed

text \<open>The outcome of a tick: no drain and the cooldown as it was, or one drain, last.\<close>

lemma tick_shape:
  "(filter isDrained (events (tick w cfg ndt)) = [] \<and> nextDrainTime (tick w cfg ndt) = ndt)
   \<or> (\<exists>pre ni ps s' spot. events (tick w cfg ndt) = pre @ [Drained ni ps (drainNode w (niNode ni) ps)]
          \<and> filter isDrained pre = [] \<and> crashed (tick w cfg ndt) = None
          \<and> nextDrainTime (tick w cfg ndt) = timeAfterDrain w + nodeDrainDelay cfg
          \<and> fst (unschedulablePods w) = []
          \<and> map (\<lambda>x. nodeName (niNode x)) spot =
              map (\<lambda>x. nodeName (niNode x)) (snd (fst (newNodeMap w (fst (allNodes w)))))
          \<and> processNode w cfg spot s' ni =
                 Break [Planned ni None, Drained ni ps (drainNode w (niNode ni) ps)]
                   (timeAfterDrain w + nodeDrainDelay cfg))"
proof (cases "ndt - timeNow w > 0")
  case True
  then show ?thesis by (simp add: tick_def)
next
  case gate: False
  obtain us e where u: "unschedulablePods w = (us, e)" by force
  define ev where "ev = (case e of None \<Rightarrow> [] | Some er \<Rightarrow> [ListUnschedulableFailed er])"
  have ev: "filter isDrained ev = []" by (simp add: ev_def split: option.splits)
  show ?thesis
  proof (cases "us = []")
    case False
    with gate u ev show ?thesis by (simp add: tick_def ev_def split: option.splits)
  next
    case us: True
    obtain ns e1 where n: "allNodes w = (ns, e1)" by force
    show ?thesis
    proof (cases e1)
      case (Some er)
      with gate u us n ev show ?thesis by (simp add: tick_def ev_def split: option.splits)
    next
      case e1: None
      obtain od spot e2 where m: "newNodeMap w ns = ((od, spot), e2)"
        by (metis surj_pair)
      show ?thesis
      proof (cases e2)
        case (Some er)
        with gate u us n e1 m ev show ?thesis by (simp add: tick_def ev_def split: option.splits)
      next
        case e2: None
        show ?thesis
        proof (cases "allPDBs w")
          case (Some er)
          with gate u us n e1 m e2 ev show ?thesis
            by (simp add: tick_def ev_def split: option.splits)
        next
          case pdb: None
          obtain tev x where tr:
            "removeTaintFromAllSpotNodes (updateNode w) (spotTaintToBeRemoved cfg) spot = (tev, x)"
            by force
          have tev: "filter isDrained tev = []" using tr by (rule removeTaintAll_no_drain)
          show ?thesis
          proof (cases x)
            case (Inl f)
            with gate u us n e1 m e2 pdb tr ev tev show ?thesis
              by (simp add: tick_def ev_def Let_def split: option.splits)
          next
            case (Inr spot')
            have nms: "map (\<lambda>x. nodeName (niNode x)) spot' =
                map (\<lambda>x. nodeName (niNode x)) (snd (fst (newNodeMap w (fst (allNodes w)))))"
              using removeTaintAll_names[of "updateNode w" "spotTaintToBeRemoved cfg" spot tev spot']
                tr Inr n m by simp
            obtain nev f t where nl:
              "nodeLoop w cfg spot' (getClusterSnapshot w spot) od = (nev, f, t)"
              by (metis surj_pair)
            have ev_eq: "events (tick w cfg ndt) =
                ev @ [NodeMapBuilt, SpotNodeMetrics, TaintReconcile] @ tev @ nev"
              and cr: "crashed (tick w cfg ndt) = f"
              and nd: "nextDrainTime (tick w cfg ndt) = (case t of None \<Rightarrow> ndt | Some t' \<Rightarrow> t')"
              using gate u us n e1 m e2 pdb tr Inr nl
              by (simp_all add: tick_def ev_def Let_def split: option.splits)
            from nodeLoop_shape[OF nl] show ?thesis
            proof
              assume "filter isDrained nev = [] \<and> t = None"
              then show ?thesis using ev_eq nd ev tev by simp
            next
              assume "\<exists>pre ni ps s'. nev = pre @ [Drained ni ps (drainNode w (niNode ni) ps)]
                \<and> filter isDrained pre = [] \<and> f = None \<and> ni \<in> set od
                \<and> t = Some (timeAfterDrain w + nodeDrainDelay cfg)
                \<and> processNode w cfg spot' s' ni =
                 Break [Planned ni None, Drained ni ps (drainNode w (niNode ni) ps)]
                   (timeAfterDrain w + nodeDrainDelay cfg)"
              then obtain pre ni ps s' where p:
                "nev = pre @ [Drained ni ps (drainNode w (niNode ni) ps)]"
                "filter isDrained pre = []" "f = None"
                "t = Some (timeAfterDrain w + nodeDrainDelay cfg)"
                "processNode w cfg spot' s' ni =
                 Break [Planned ni None, Drained ni ps (drainNode w (niNode ni) ps)]
                   (timeAfterDrain w + nodeDrainDelay cfg)" by blast
              have "events (tick w cfg ndt) =
                  (ev @ [NodeMapBuilt, SpotNodeMetrics, TaintReconcile] @ tev @ pre)
                    @ [Drained ni ps (drainNode w (niNode ni) ps)]
                \<and> filter isDrained (ev @ [NodeMapBuilt, SpotNodeMetrics, TaintReconcile] @ tev @ pre) = []
                \<and> crashed (tick w cfg ndt) = None
                \<and> nextDrainTime (tick w cfg ndt) = timeAfterDrain w + nodeDrainDelay cfg
                \<and> fst (unschedulablePods w) = []
                \<and> map (\<lambda>x. nodeName (niNode x)) spot' =
                    map (\<lambda>x. nodeName (niNode x)) (snd (fst (newNodeMap w (fst (allNodes w)))))
                \<and> processNode w cfg spot' s' ni =
                 Break [Planned ni None, Drained ni ps (drainNode w (niNode ni) ps)]
                   (timeAfterDrain w + nodeDrainDelay cfg)"
                using ev_eq cr nd p ev tev u us nms by simp
              then show ?thesis by blast
            qed
          qed
        qed
      qed
    qed
  qed
qed






section \<open>Evaluating the concrete clusters\<close>

lemmas ex_defs = exampleWorld_def exampleConfig_def spotA_def spotB_def podWeb_def podApi_def podDb_def
  onDemand1_def onDemand2_def onDemand3_def oneSlot_def place_def
  failedDrainWorld_def pendingWorld_def listFailedWorld_def blockerWorld_def
  onDemand5_def onDemand6_def blockerFullWorld_def podLogs_def

lemmas taint_defs = taintPreemptNoSchedule_def taintPreemptNoExecute_def taintGpu_def spotX_def
  spotY_def spotZ_def updateOk_def taintConfig_def taintWorld_def podJob_def onDemand4_def
  nilControllerWorld_def

lemmas tick_defs = tick_def removeTaintFromAllSpotNodes_def processNode_def podsForDeletion_def
      drainNode_def annotation_def safeToEvictKey_def podID_def Let_def

lemma example_tick:
  "tick exampleWorld exampleConfig 0 =
     \<lparr>events = [NodeMapBuilt, SpotNodeMetrics, TaintReconcile, Planned onDemand1 None,
                Drained onDemand1 [podWeb\<lparr>podNodeName := []\<rparr>] None],
      crashed = None, nextDrainTime = 730\<rparr>"
  by (simp add: tick_defs ex_defs)

lemma failedDrain_tick:
  "tick failedDrainWorld exampleConfig 0 =
     \<lparr>events = [NodeMapBuilt, SpotNodeMetrics, TaintReconcile, Planned onDemand1 None,
                Drained onDemand1 [podWeb\<lparr>podNodeName := []\<rparr>]
                  (Some (External ''eviction timed out''))],
      crashed = None, nextDrainTime = 730\<rparr>"
  by (simp add: tick_defs ex_defs)

section \<open>The claims\<close>




text \<open>
  C2. A tick calls the drain executor at most once, and the call is the last thing
  the loop over the on-demand nodes does: nothing is planned or drained after it,
  whatever the executor returns.
\<close>

theorem one_drain_per_tick:
  "length (filter isDrained (events (tick w cfg ndt))) \<le> 1
   \<and> (\<forall>pre ev post. events (tick w cfg ndt) = pre @ ev # post \<longrightarrow> isDrained ev \<longrightarrow> post = [])"
proof -
  from tick_shape[of w cfg ndt] show ?thesis
  proof
    assume q: "filter isDrained (events (tick w cfg ndt)) = [] \<and> nextDrainTime (tick w cfg ndt) = ndt"
    then have "\<forall>ev\<in>set (events (tick w cfg ndt)). \<not> isDrained ev"
      by (simp add: filter_empty_conv)
    then have "\<forall>pre ev post. events (tick w cfg ndt) = pre @ ev # post \<longrightarrow> isDrained ev \<longrightarrow> post = []"
      by auto
    with q show ?thesis by simp
  next
    assume "\<exists>pre ni ps s' spot. events (tick w cfg ndt) = pre @ [Drained ni ps (drainNode w (niNode ni) ps)]
          \<and> filter isDrained pre = [] \<and> crashed (tick w cfg ndt) = None
          \<and> nextDrainTime (tick w cfg ndt) = timeAfterDrain w + nodeDrainDelay cfg
          \<and> fst (unschedulablePods w) = []
          \<and> map (\<lambda>x. nodeName (niNode x)) spot =
              map (\<lambda>x. nodeName (niNode x)) (snd (fst (newNodeMap w (fst (allNodes w)))))
          \<and> processNode w cfg spot s' ni =
                 Break [Planned ni None, Drained ni ps (drainNode w (niNode ni) ps)]
                   (timeAfterDrain w + nodeDrainDelay cfg)"
    then obtain pre0 ni ps where ev: "events (tick w cfg ndt) = pre0 @ [Drained ni ps (drainNode w (niNode ni) ps)]"
      and pre0: "filter isDrained pre0 = []"
      by blast
    have len: "length (filter isDrained (events (tick w cfg ndt))) \<le> 1"
      using ev pre0 by simp
    have last: "\<forall>pre ev post. events (tick w cfg ndt) = pre @ ev # post \<longrightarrow> isDrained ev \<longrightarrow> post = []"
    proof (intro allI impI)
      fix pre e post
      assume eq: "events (tick w cfg ndt) = pre @ e # post" and de: "isDrained e"
      show "post = []"
      proof (rule ccontr)
        assume "post \<noteq> []"
        then obtain post' l where pl: "post = post' @ [l]"
          by (metis rev_exhaust)
        with eq ev have "pre0 = pre @ e # post'" by simp
        then have "e \<in> set pre0" by simp
        with pre0 de show False by (simp add: filter_empty_conv)
      qed
    qed
    from len last show ?thesis by simp
  qed
qed

text \<open>
  C2 at the cluster with two on-demand nodes that both fit on the spot nodes: the
  first is drained, the second is not looked at.
\<close>

theorem one_drain_per_tick_witness:
  "events (tick exampleWorld exampleConfig 0) =
     [NodeMapBuilt, SpotNodeMetrics, TaintReconcile, Planned onDemand1 None]
       @ Drained onDemand1 [podWeb\<lparr>podNodeName := []\<rparr>] None # []
   \<and> isDrained (Drained onDemand1 [podWeb\<lparr>podNodeName := []\<rparr>] None)
   \<and> length (filter isDrained (events (tick exampleWorld exampleConfig 0))) \<le> 1
   \<and> fst (canDrainNode oneSlot place ([], []) [spotA, spotB] (niPods onDemand2)) = None"
proof -
  have c: "fst (canDrainNode oneSlot place ([], []) [spotA, spotB] (niPods onDemand2)) = None"
    by (simp add: ex_defs annotation_def safeToEvictKey_def)
  show ?thesis
    using one_drain_per_tick[of exampleWorld exampleConfig 0] c
    by (simp add: example_tick)
qed

text \<open>
  C3. When a tick calls the drain executor, then, whatever it returns, the tick
  leaves \<open>nextDrainTime\<close> at the clock read after the call plus
  \<open>nodeDrainDelay\<close>: for every instant \<open>t\<close> up to that reading (the start of the
  tick, the start of the drain) it is at least \<open>t + nodeDrainDelay\<close>, and a tick
  that starts before \<open>t + nodeDrainDelay\<close> only waits.
\<close>

theorem cooldown_armed_after_drain:
  assumes "\<exists>ev\<in>set (events (tick w cfg ndt)). isDrained ev"
    and "t \<le> timeAfterDrain w"
  shows "t + nodeDrainDelay cfg \<le> nextDrainTime (tick w cfg ndt)
       \<and> (\<forall>w' :: 's world. timeNow w' < t + nodeDrainDelay cfg \<longrightarrow>
            tick w' cfg (nextDrainTime (tick w cfg ndt)) =
              \<lparr>events = [WaitingDrainDelay], crashed = None,
               nextDrainTime = nextDrainTime (tick w cfg ndt)\<rparr>)"
proof -
  from assms(1) have "filter isDrained (events (tick w cfg ndt)) \<noteq> []"
    unfolding filter_empty_conv by blast
  with tick_shape[of w cfg ndt]
  have n: "nextDrainTime (tick w cfg ndt) = timeAfterDrain w + nodeDrainDelay cfg"
    by blast
  with assms(2) have le: "t + nodeDrainDelay cfg \<le> nextDrainTime (tick w cfg ndt)" by simp
  then show ?thesis by (simp add: tick_def)
qed

text \<open>
  C3 at the cluster whose drain fails: the tick starts at 100, the drain has
  returned at 130, the delay is 600; a tick at 699 waits.
\<close>

theorem cooldown_armed_after_drain_witness:
  "(\<exists>ev\<in>set (events (tick failedDrainWorld exampleConfig 0)). isDrained ev)
   \<and> timeNow failedDrainWorld \<le> timeAfterDrain failedDrainWorld
   \<and> timeNow failedDrainWorld + nodeDrainDelay exampleConfig
        \<le> nextDrainTime (tick failedDrainWorld exampleConfig 0)
   \<and> timeNow (exampleWorld\<lparr>timeNow := 699\<rparr>) < timeNow failedDrainWorld + nodeDrainDelay exampleConfig
   \<and> events (tick (exampleWorld\<lparr>timeNow := 699\<rparr>) exampleConfig
               (nextDrainTime (tick failedDrainWorld exampleConfig 0))) = [WaitingDrainDelay]"
proof -
  have 1: "\<exists>ev\<in>set (events (tick failedDrainWorld exampleConfig 0)). isDrained ev"
    by (simp add: failedDrain_tick)
  have 2: "timeNow failedDrainWorld \<le> timeAfterDrain failedDrainWorld"
    by (simp add: ex_defs)
  have 3: "timeNow (exampleWorld\<lparr>timeNow := 699\<rparr>) < timeNow failedDrainWorld + nodeDrainDelay exampleConfig"
    by (simp add: ex_defs)
  from cooldown_armed_after_drain[OF 1 2] 3
  have "timeNow failedDrainWorld + nodeDrainDelay exampleConfig
        \<le> nextDrainTime (tick failedDrainWorld exampleConfig 0)"
    and "tick (exampleWorld\<lparr>timeNow := 699\<rparr>) exampleConfig
            (nextDrainTime (tick failedDrainWorld exampleConfig 0)) =
          \<lparr>events = [WaitingDrainDelay], crashed = None,
           nextDrainTime = nextDrainTime (tick failedDrainWorld exampleConfig 0)\<rparr>"
    by blast+
  with 1 2 3 show ?thesis by simp
qed

text \<open>
  C4. \<open>findSpotNodeForPod\<close> returns the name of the first spot node, in the
  given order, whose predicate check succeeds for the pod, and \<open>canDrainNode\<close>
  is the planner of the specification: pods in input order, each successful
  placement added to the snapshot before the next pod is looked at. Node names are
  not empty (the empty name is what \<open>findSpotNodeForPod\<close> returns for "none").
\<close>

theorem planner_first_fit_accumulates:
  assumes "\<forall>ni\<in>set nodes. nodeName (niNode ni) \<noteq> []"
  shows "fst (findSpotNodeForPod chk s nodes p) =
           (case firstAccepting chk s nodes (p\<lparr>podNodeName := []\<rparr>) of
              None \<Rightarrow> [] | Some ni \<Rightarrow> nodeName (niNode ni))
       \<and> (case canDrainNode chk add s nodes pods of
            (None, s', ps') \<Rightarrow> plannerSpec chk add s nodes pods = Some s'
          | (Some e, s', ps') \<Rightarrow> plannerSpec chk add s nodes pods = None)"
proof
  show "fst (findSpotNodeForPod chk s nodes p) =
           (case firstAccepting chk s nodes (p\<lparr>podNodeName := []\<rparr>) of
              None \<Rightarrow> [] | Some ni \<Rightarrow> nodeName (niNode ni))"
    by (rule findSpot_name)
next
  show "case canDrainNode chk add s nodes pods of
            (None, s', ps') \<Rightarrow> plannerSpec chk add s nodes pods = Some s'
          | (Some e, s', ps') \<Rightarrow> plannerSpec chk add s nodes pods = None"
    using canDrain_spec[OF assms, of chk add s pods]
    by (simp split: prod.splits option.splits)
qed

text \<open>
  C4 with two spot nodes of one slot each: the first pod goes to the first node,
  the second pod finds it taken and goes to the second.
\<close>

theorem planner_first_fit_accumulates_witness:
  "nodeName (niNode spotA) \<noteq> [] \<and> nodeName (niNode spotB) \<noteq> []
   \<and> fst (findSpotNodeForPod oneSlot ([''spot-a''], []) [spotA, spotB] podApi) = ''spot-b''
   \<and> canDrainNode oneSlot place ([], []) [spotA, spotB] [podWeb, podApi] =
        (None, ([''spot-a'', ''spot-b''], []),
         [podWeb\<lparr>podNodeName := []\<rparr>, podApi\<lparr>podNodeName := []\<rparr>])
   \<and> plannerSpec oneSlot place ([], []) [spotA, spotB] [podWeb, podApi] =
        Some ([''spot-a'', ''spot-b''], [])"
proof -
  have h: "\<forall>ni\<in>set [spotA, spotB]. nodeName (niNode ni) \<noteq> []"
    by (simp add: spotA_def spotB_def)
  have c: "canDrainNode oneSlot place ([], []) [spotA, spotB] [podWeb, podApi] =
        (None, ([''spot-a'', ''spot-b''], []),
         [podWeb\<lparr>podNodeName := []\<rparr>, podApi\<lparr>podNodeName := []\<rparr>])"
    by (simp add: ex_defs annotation_def safeToEvictKey_def)
  have f: "fst (findSpotNodeForPod oneSlot ([''spot-a''], []) [spotA, spotB] podApi) = ''spot-b''"
    by (simp add: ex_defs)
  from planner_first_fit_accumulates[OF h, of oneSlot "([], [])" podWeb place "[podWeb, podApi]"] c
  have "plannerSpec oneSlot place ([], []) [spotA, spotB] [podWeb, podApi] =
        Some ([''spot-a'', ''spot-b''], [])" by simp
  with h c f show ?thesis by simp
qed

text \<open>
  C5, as amended. The planner works on the pod it is given, not on a copy:
  \<open>findSpotNodeForPod\<close> sets \<open>Spec.NodeName\<close> of the pod to the empty string
  when there is a spot node, and leaves the pod as it is when there is none. No
  other field changes. After a \<open>canDrainNode\<close> that succeeds with a spot node,
  every pod has the empty node name.
\<close>

theorem planner_writes_only_node_name:
  "snd (findSpotNodeForPod chk s nodes p) = (if nodes = [] then p else p\<lparr>podNodeName := []\<rparr>)
   \<and> list_all2 (\<lambda>p' p. p' = p \<or> p' = p\<lparr>podNodeName := []\<rparr>)
        (snd (snd (canDrainNode chk add s nodes pods))) pods
   \<and> (nodes \<noteq> [] \<and> fst (canDrainNode chk add s nodes pods) = None \<longrightarrow>
        snd (snd (canDrainNode chk add s nodes pods)) = map (\<lambda>p. p\<lparr>podNodeName := []\<rparr>) pods)"
  using findSpot_pod[of chk s nodes p] canDrain_pods[of chk add s nodes pods]
    canDrain_pods_cleared[of nodes chk add s pods]
  by blast

text \<open>
  C5 at one pod and one spot node, and at no spot node.
\<close>

theorem planner_writes_only_node_name_witness:
  "[spotA] \<noteq> [] \<and> fst (canDrainNode oneSlot place ([], []) [spotA] [podWeb]) = None
   \<and> snd (findSpotNodeForPod oneSlot ([], []) [spotA] podWeb) = podWeb\<lparr>podNodeName := []\<rparr>
   \<and> snd (snd (canDrainNode oneSlot place ([], []) [spotA] [podWeb])) = [podWeb\<lparr>podNodeName := []\<rparr>]
   \<and> snd (findSpotNodeForPod oneSlot ([], []) [] podWeb) = podWeb"
proof -
  have 1: "[spotA] \<noteq> [] \<and> fst (canDrainNode oneSlot place ([], []) [spotA] [podWeb]) = None"
    by (simp add: ex_defs annotation_def safeToEvictKey_def)
  show ?thesis
    using planner_writes_only_node_name[of oneSlot "([], [])" "[spotA]" podWeb place "[podWeb]"]
      planner_writes_only_node_name[of oneSlot "([], [])" "[]" podWeb place "[]"] 1
    by simp
qed

text \<open>
  C5 as it is written fails: the pod is on ondemand-1 before the call and on no
  node after it.
\<close>

theorem planner_clears_original_counterexample:
  "podNodeName podWeb = ''ondemand-1''
   \<and> podNodeName (snd (findSpotNodeForPod oneSlot ([], []) [spotA] podWeb)) = []
   \<and> map podNodeName (snd (snd (canDrainNode oneSlot place ([], []) [spotA] [podWeb]))) = [[]]"
  by (simp add: ex_defs annotation_def safeToEvictKey_def)



text \<open>
  C8 fails on the code: after the lister of the unschedulable pods has failed, the
  error is logged and the tick goes on (the branch has no \<open>continue\<close>, unlike
  the three listings after it); the list it got is empty, so the node map is built
  and a node is drained.
\<close>

theorem list_failure_tick_goes_on:
  "unschedulablePods listFailedWorld = ([], Some (External ''cache is not synced''))
   \<and> tick listFailedWorld exampleConfig 0 =
     \<lparr>events = [ListUnschedulableFailed (External ''cache is not synced''),
                NodeMapBuilt, SpotNodeMetrics, TaintReconcile, Planned onDemand1 None,
                Drained onDemand1 [podWeb\<lparr>podNodeName := []\<rparr>] None],
      crashed = None, nextDrainTime = 730\<rparr>"
  by (simp add: tick_defs ex_defs)

text \<open>
  C9 fails on the code: an owner reference with a nil \<open>Controller\<close> is
  dereferenced, and the tick ends in a panic.
\<close>

theorem nil_controller_panics:
  "controlledByDaemonSet (podOwnerReferences podJob) = Inl NilPointerDereference
   \<and> podsForDeletion [podWeb, podJob] = Inl NilPointerDereference
   \<and> crashed (tick nilControllerWorld exampleConfig 0) = Some NilPointerDereference"
  by (simp add: tick_defs ex_defs taint_defs)

text \<open>
  C10 fails on the code: with two taints of the configured key, the second match
  is met at index 1 when the slice has length 1.
\<close>

theorem two_matching_taints_out_of_range:
  "removeTaintFromNode updateOk ''preempt'' (niNode spotY) =
     ([NodeUpdate \<lparr>nodeName = ''spot-y'', nodeTaints = [taintPreemptNoExecute]\<rparr> True],
      Inl IndexOutOfRange)"
  by (simp add: removeTaintFromNode_def taint_defs)

text \<open>
  C6 fails on the code, by the same index: on spot-z the loop panics with a taint
  of the configured key still on the node, and the tick ends there, before any
  on-demand node is looked at.
\<close>

theorem matching_taint_left_by_panic:
  "removeTaintFromAllSpotNodes updateOk ''preempt'' [spotX, spotZ] =
     ([NodeUpdate \<lparr>nodeName = ''spot-x'', nodeTaints = [taintGpu]\<rparr> True,
       NodeUpdate \<lparr>nodeName = ''spot-z'', nodeTaints = [taintGpu, taintPreemptNoExecute]\<rparr> True],
      Inl IndexOutOfRange)
   \<and> crashed (tick taintWorld taintConfig 0) = Some IndexOutOfRange
   \<and> filter isPlanned (events (tick taintWorld taintConfig 0)) = []"
  by (simp add: tick_defs ex_defs taint_defs removeTaintFromNode_def)

section \<open>Further properties of the code\<close>

subsection \<open>The taint reconciler where it does not panic\<close>

lemma stale_match_panics:
  "p \<in> set is \<Longrightarrow> cur \<le> p \<Longrightarrow> taintKey (arr ! p) = key \<Longrightarrow>
   snd (removeTaintLoop upd key nd is arr cur) = Inl IndexOutOfRange"
proof (induction "is" arbitrary: arr cur)
  case Nil
  then show ?case by simp
next
  case (Cons i "is")
  show ?case
  proof (cases "taintKey (arr ! i) = key")
    case False
    with Cons.prems have "p \<in> set is" by auto
    from Cons.IH[OF this Cons.prems(2,3)] False show ?thesis by simp
  next
    case True
    show ?thesis
    proof (cases "i < cur")
      case False
      with True show ?thesis by simp
    next
      case lt: True
      with Cons.prems have ne: "i \<noteq> p" and "p \<in> set is" by auto
      have "cur - 1 \<le> p" using Cons.prems(2) by simp
      moreover have "taintKey ((arr[i := arr ! (cur - 1)]) ! p) = key"
        using ne Cons.prems(3) by simp
      ultimately have "snd (removeTaintLoop upd key nd is (arr[i := arr ! (cur - 1)]) (cur - 1))
          = Inl IndexOutOfRange"
        using Cons.IH[OF \<open>p \<in> set is\<close>] by blast
      with True lt show ?thesis by (auto simp: Let_def split: prod.splits)
    qed
  qed
qed

lemma swap_cut_mset:
  assumes "i < cur" and "cur \<le> length arr"
  shows "mset (take cur arr) = add_mset (arr ! i) (mset (take (cur - 1) (arr[i := arr ! (cur - 1)])))"
proof -
  obtain c where c: "cur = Suc c" using assms(1) by (cases cur) auto
  have t: "take (Suc c) arr = take c arr @ [arr ! c]"
    using assms(2) c by (simp add: take_Suc_conv_app_nth)
  show ?thesis
  proof (cases "i = c")
    case True
    then show ?thesis using c t by simp
  next
    case False
    with assms(1) c have ic: "i < c" by simp
    then have il: "i < length (take c arr)" using assms(2) c by simp
    have "take c (arr[i := arr ! c]) = (take c arr)[i := arr ! c]"
      by (simp add: take_update_swap)
    then have "mset (take c (arr[i := arr ! c])) =
        add_mset (arr ! c) (mset (take c arr) - {#take c arr ! i#})"
      using il by (simp add: mset_update)
    moreover have "take c arr ! i = arr ! i" using ic by simp
    moreover have "arr ! i \<in># mset (take c arr)"
      using il \<open>take c arr ! i = arr ! i\<close> by (metis nth_mem set_mset_mset)
    ultimately show ?thesis using c t by simp
  qed
qed

lemma removeTaintLoop_result:
  assumes "removeTaintLoop upd key nd [i ..< n] arr cur = (evs, Inr (arr', cur'))"
    and "n = length arr" and "cur \<le> n"
    and "\<forall>j. j < i \<and> j < cur \<longrightarrow> taintKey (arr ! j) \<noteq> key"
  shows "mset (take cur' arr') = filter_mset (\<lambda>t. taintKey t \<noteq> key) (mset (take cur arr))
       \<and> length evs = size (filter_mset (\<lambda>t. taintKey t = key) (mset (take cur arr)))"
  using assms
proof (induction "n - i" arbitrary: i arr cur evs)
  case 0
  then have "[i ..< n] = []" by simp
  with "0.prems"(1) have r: "arr' = arr" "cur' = cur" "evs = []" by simp_all
  have "\<forall>t\<in>set (take cur arr). taintKey t \<noteq> key"
  proof
    fix t assume "t \<in> set (take cur arr)"
    then obtain j where "j < length (take cur arr)" "take cur arr ! j = t"
      by (metis in_set_conv_nth)
    then have "j < cur" "arr ! j = t" by simp_all
    moreover have "j < i" using \<open>j < cur\<close> "0.prems"(3) "0.hyps" by simp
    ultimately show "taintKey t \<noteq> key" using "0.prems"(4) by blast
  qed
  then have "filter_mset (\<lambda>t. taintKey t \<noteq> key) (mset (take cur arr)) = mset (take cur arr)"
    and "filter_mset (\<lambda>t. taintKey t = key) (mset (take cur arr)) = {#}"
    by (simp_all add: filter_mset_eq_conv)
  with r show ?case by simp
next
  case (Suc k)
  then have lt: "i < n" by simp
  then have up: "[i ..< n] = i # [Suc i ..< n]" by (simp add: upt_conv_Cons)
  have k: "k = n - Suc i" using Suc.hyps(2) by simp
  show ?case
  proof (cases "taintKey (arr ! i) = key")
    case False
    have rec: "removeTaintLoop upd key nd [Suc i ..< n] arr cur = (evs, Inr (arr', cur'))"
      using Suc.prems(1) up False by simp
    have pre: "\<forall>j. j < Suc i \<and> j < cur \<longrightarrow> taintKey (arr ! j) \<noteq> key"
      using Suc.prems(4) False by (metis less_Suc_eq)
    from Suc.hyps(1)[OF k rec Suc.prems(2,3) pre] show ?thesis .
  next
    case True
    have ic: "i < cur"
    proof (rule ccontr)
      assume "\<not> i < cur"
      with Suc.prems(1) up True show False by simp
    qed
    define x where "x = arr ! (cur - 1)"
    obtain evs0 where rec: "removeTaintLoop upd key nd [Suc i ..< n] (arr[i := x]) (cur - 1)
          = (evs0, Inr (arr', cur'))"
      and ev: "length evs = Suc (length evs0)"
      using Suc.prems(1) up True ic
      by (auto simp: Let_def x_def split: prod.splits)
    have xok: "i < cur - 1 \<Longrightarrow> taintKey x \<noteq> key"
    proof
      assume a: "i < cur - 1" and m: "taintKey x = key"
      have "cur - 1 \<in> set [Suc i ..< n]" using a Suc.prems(3) by auto
      moreover have "taintKey ((arr[i := x]) ! (cur - 1)) = key"
        using a m by (simp add: x_def)
      ultimately have "snd (removeTaintLoop upd key nd [Suc i ..< n] (arr[i := x]) (cur - 1))
          = Inl IndexOutOfRange"
        using stale_match_panics[of "cur - 1" "[Suc i ..< n]" "cur - 1" "arr[i := x]" key upd nd]
        by simp
      with rec show False by simp
    qed
    have pre: "\<forall>j. j < Suc i \<and> j < cur - 1 \<longrightarrow> taintKey ((arr[i := x]) ! j) \<noteq> key"
    proof (intro allI impI)
      fix j assume j: "j < Suc i \<and> j < cur - 1"
      show "taintKey ((arr[i := x]) ! j) \<noteq> key"
      proof (cases "j = i")
        case True
        then have "(arr[i := x]) ! j = x" using lt Suc.prems(2) by simp
        with xok j True show ?thesis by simp
      next
        case False
        then have "j < i \<and> j < cur" using j by auto
        with Suc.prems(4) False show ?thesis by simp
      qed
    qed
    have len: "n = length (arr[i := x])" using Suc.prems(2) by simp
    have cl: "cur - 1 \<le> n" using Suc.prems(3) by simp
    from Suc.hyps(1)[OF k rec len cl pre]
    have ih: "mset (take cur' arr') =
          filter_mset (\<lambda>t. taintKey t \<noteq> key) (mset (take (cur - 1) (arr[i := x])))"
      and ihn: "length evs0 =
          size (filter_mset (\<lambda>t. taintKey t = key) (mset (take (cur - 1) (arr[i := x]))))"
      by simp_all
    have sw: "mset (take cur arr) = add_mset (arr ! i) (mset (take (cur - 1) (arr[i := x])))"
      unfolding x_def using ic Suc.prems(2,3) by (intro swap_cut_mset) simp_all
    show ?thesis using ih ihn ev True by (simp add: sw)
  qed
qed

lemma removeTaintLoop_no_match:
  "\<forall>i\<in>set is. taintKey (arr ! i) \<noteq> key \<Longrightarrow>
   removeTaintLoop upd key nd is arr cur = ([], Inr (arr, cur))"
  by (induction "is") auto

lemma removeTaintLoop_skip:
  "\<forall>i\<in>set is1. taintKey (arr ! i) \<noteq> key \<Longrightarrow>
   removeTaintLoop upd key nd (is1 @ is2) arr cur = removeTaintLoop upd key nd is2 arr cur"
  by (induction is1) auto

text \<open>
  If the loop over the taints of a spot node ends without a panic, the node is
  left with the taints of the other keys, each as often as before (in some order),
  one update was sent for every taint of the configured key, whatever the updates
  returned, and the node keeps its name. A node with no taint of the key is left as
  it is and no update is sent.
\<close>

theorem taint_removal_when_no_panic:
  "(removeTaintFromNode upd key nd = (evs, Inr nd') \<longrightarrow>
      mset (nodeTaints nd') = filter_mset (\<lambda>t. taintKey t \<noteq> key) (mset (nodeTaints nd))
      \<and> length evs = length (filter (\<lambda>t. taintKey t = key) (nodeTaints nd))
      \<and> nodeName nd' = nodeName nd)
   \<and> ((\<forall>t\<in>set (nodeTaints nd). taintKey t \<noteq> key) \<longrightarrow>
        removeTaintFromNode upd key nd = ([], Inr nd))"
proof (intro conjI impI)
  assume a: "removeTaintFromNode upd key nd = (evs, Inr nd')"
  then obtain arr' cur' where
    l: "removeTaintLoop upd key nd [0 ..< length (nodeTaints nd)] (nodeTaints nd)
          (length (nodeTaints nd)) = (evs, Inr (arr', cur'))"
    and nd': "nd' = nd\<lparr>nodeTaints := take cur' arr'\<rparr>"
    by (auto simp: removeTaintFromNode_def split: prod.splits sum.splits)
  from removeTaintLoop_result[OF l] nd'
  have "mset (nodeTaints nd') = filter_mset (\<lambda>t. taintKey t \<noteq> key) (mset (nodeTaints nd))"
    and "length evs = size (filter_mset (\<lambda>t. taintKey t = key) (mset (nodeTaints nd)))"
    by simp_all
  then show "mset (nodeTaints nd') = filter_mset (\<lambda>t. taintKey t \<noteq> key) (mset (nodeTaints nd))"
    and "length evs = length (filter (\<lambda>t. taintKey t = key) (nodeTaints nd))"
    by (simp_all flip: mset_filter)
  from nd' show "nodeName nd' = nodeName nd" by simp
next
  assume "\<forall>t\<in>set (nodeTaints nd). taintKey t \<noteq> key"
  then have "\<forall>i\<in>set [0 ..< length (nodeTaints nd)]. taintKey (nodeTaints nd ! i) \<noteq> key"
    by simp
  then show "removeTaintFromNode upd key nd = ([], Inr nd)"
    by (simp add: removeTaintFromNode_def removeTaintLoop_no_match)
qed

text \<open>
  At spot-x, with the taints preempt:NoSchedule and gpu:NoSchedule: one update,
  gpu:NoSchedule is left, and a second pass changes nothing.
\<close>

theorem taint_removal_when_no_panic_witness:
  "removeTaintFromNode updateOk ''preempt'' (niNode spotX) =
     ([NodeUpdate \<lparr>nodeName = ''spot-x'', nodeTaints = [taintGpu]\<rparr> True],
      Inr \<lparr>nodeName = ''spot-x'', nodeTaints = [taintGpu]\<rparr>)
   \<and> mset [taintGpu] = filter_mset (\<lambda>t. taintKey t \<noteq> ''preempt'') (mset (nodeTaints (niNode spotX)))
   \<and> taintKey taintGpu \<noteq> ''preempt''
   \<and> removeTaintFromNode updateOk ''preempt'' \<lparr>nodeName = ''spot-x'', nodeTaints = [taintGpu]\<rparr> =
       ([], Inr \<lparr>nodeName = ''spot-x'', nodeTaints = [taintGpu]\<rparr>)"
proof -
  have 1: "removeTaintFromNode updateOk ''preempt'' (niNode spotX) =
     ([NodeUpdate \<lparr>nodeName = ''spot-x'', nodeTaints = [taintGpu]\<rparr> True],
      Inr \<lparr>nodeName = ''spot-x'', nodeTaints = [taintGpu]\<rparr>)"
    by (simp add: removeTaintFromNode_def taint_defs)
  have 2: "\<forall>t\<in>set (nodeTaints \<lparr>nodeName = ''spot-x'', nodeTaints = [taintGpu]\<rparr>). taintKey t \<noteq> ''preempt''"
    by (simp add: taintGpu_def)
  have 3: "mset (nodeTaints \<lparr>nodeName = ''spot-x'', nodeTaints = [taintGpu]\<rparr>) =
      filter_mset (\<lambda>t. taintKey t \<noteq> ''preempt'') (mset (nodeTaints (niNode spotX)))"
    using taint_removal_when_no_panic[of updateOk "''preempt''" "niNode spotX"
        "[NodeUpdate \<lparr>nodeName = ''spot-x'', nodeTaints = [taintGpu]\<rparr> True]"
        "\<lparr>nodeName = ''spot-x'', nodeTaints = [taintGpu]\<rparr>"] 1 by blast
  have 4: "removeTaintFromNode updateOk ''preempt'' \<lparr>nodeName = ''spot-x'', nodeTaints = [taintGpu]\<rparr> =
       ([], Inr \<lparr>nodeName = ''spot-x'', nodeTaints = [taintGpu]\<rparr>)"
    using taint_removal_when_no_panic[of updateOk "''preempt''"
        "\<lparr>nodeName = ''spot-x'', nodeTaints = [taintGpu]\<rparr>"] 2 by blast
  from 1 2 3 4 show ?thesis by simp
qed

text \<open>
  The loop panics whenever the last taint of the node has the configured key
  and an earlier taint has it too.
\<close>

theorem last_taint_matching_panics:
  assumes "i < length (nodeTaints nd) - 1"
    and "taintKey (nodeTaints nd ! i) = key"
    and "taintKey (nodeTaints nd ! (length (nodeTaints nd) - 1)) = key"
  shows "snd (removeTaintFromNode upd key nd) = Inl IndexOutOfRange"
proof -
  define arr where "arr = nodeTaints nd"
  define n where "n = length arr"
  define f where "f = (LEAST j. taintKey (arr ! j) = key)"
  have fm: "taintKey (arr ! f) = key" unfolding f_def
    using assms(2) arr_def by (metis (mono_tags, lifting) LeastI)
  have fi: "f \<le> i" unfolding f_def using assms(2) arr_def by (simp add: Least_le)
  have fmin: "\<forall>j<f. taintKey (arr ! j) \<noteq> key"
    unfolding f_def using not_less_Least by blast
  have fn: "f < n - 1" using fi assms(1) arr_def n_def by simp
  then have split: "[0 ..< n] = [0 ..< f] @ f # [Suc f ..< n]"
    by (metis Suc_lessD less_diff_conv Suc_eq_plus1 upt_conv_Cons upt_add_eq_append
        le0 less_imp_le_nat le_add_diff_inverse)
  have skip: "removeTaintLoop upd key nd [0 ..< n] arr n =
      removeTaintLoop upd key nd (f # [Suc f ..< n]) arr n"
    unfolding split using fmin by (intro removeTaintLoop_skip) simp
  have stale: "snd (removeTaintLoop upd key nd [Suc f ..< n] (arr[f := arr ! (n - 1)]) (n - 1))
      = Inl IndexOutOfRange"
  proof (rule stale_match_panics[where p = "n - 1"])
    show "n - 1 \<in> set [Suc f ..< n]" using fn by auto
    show "n - 1 \<le> n - 1" by simp
    show "taintKey ((arr[f := arr ! (n - 1)]) ! (n - 1)) = key"
      using fn assms(3) arr_def n_def by simp
  qed
  have "f < n" using fn by simp
  then have "snd (removeTaintLoop upd key nd (f # [Suc f ..< n]) arr n) = Inl IndexOutOfRange"
    using fm stale by (auto simp: Let_def split: prod.splits)
  with skip have "snd (removeTaintLoop upd key nd [0 ..< n] arr n) = Inl IndexOutOfRange"
    by simp
  then obtain evs where "removeTaintLoop upd key nd [0 ..< length (nodeTaints nd)]
      (nodeTaints nd) (length (nodeTaints nd)) = (evs, Inl IndexOutOfRange)"
    unfolding arr_def n_def by (metis prod.collapse)
  then show ?thesis by (simp add: removeTaintFromNode_def)
qed

text \<open>
  At spot-z, with the taints gpu:NoSchedule, preempt:NoSchedule and
  preempt:NoExecute.
\<close>

theorem last_taint_matching_panics_witness:
  "(1::nat) < length (nodeTaints (niNode spotZ)) - 1
   \<and> taintKey (nodeTaints (niNode spotZ) ! 1) = ''preempt''
   \<and> taintKey (nodeTaints (niNode spotZ) ! (length (nodeTaints (niNode spotZ)) - 1)) = ''preempt''
   \<and> snd (removeTaintFromNode updateOk ''preempt'' (niNode spotZ)) = Inl IndexOutOfRange"
proof -
  have 1: "(1::nat) < length (nodeTaints (niNode spotZ)) - 1"
    by (simp add: spotZ_def)
  have 2: "taintKey (nodeTaints (niNode spotZ) ! 1) = ''preempt''"
    by (simp add: spotZ_def taintPreemptNoSchedule_def)
  have 3: "taintKey (nodeTaints (niNode spotZ) ! (length (nodeTaints (niNode spotZ)) - 1)) = ''preempt''"
    by (simp add: spotZ_def taintPreemptNoExecute_def)
  from last_taint_matching_panics[OF 1 2 3] 1 2 3 show ?thesis by blast
qed

subsection \<open>The daemon-set exclusion where it does not panic\<close>

lemma controlledByDaemonSet_Inr:
  "controlledByDaemonSet owners = Inr c \<Longrightarrow>
   c = (\<exists>owner\<in>set owners. orController owner = Some True \<and> orKind owner = ''DaemonSet'')"
  by (induction owners) (auto split: option.splits if_splits)

lemma controlledByDaemonSet_total:
  "\<forall>owner\<in>set owners. orController owner \<noteq> None \<Longrightarrow> \<exists>c. controlledByDaemonSet owners = Inr c"
  by (induction owners) (auto split: option.splits)

lemma podsForDeletionLoop_Inr:
  "podsForDeletionLoop ps acc = Inr r \<Longrightarrow> r = acc @ filter (\<lambda>p. \<not> ownedByDaemonSet p) ps"
proof (induction ps arbitrary: acc)
  case Nil
  then show ?case by simp
next
  case (Cons p ps)
  then obtain c where c: "controlledByDaemonSet (podOwnerReferences p) = Inr c"
    by (auto split: sum.splits)
  then have "c = ownedByDaemonSet p"
    unfolding ownedByDaemonSet_def by (rule controlledByDaemonSet_Inr)
  show ?case
  proof (cases c)
    case True
    with Cons.prems c have "podsForDeletionLoop ps acc = Inr r" by simp
    from Cons.IH[OF this] True \<open>c = ownedByDaemonSet p\<close> show ?thesis by simp
  next
    case False
    with Cons.prems c have "podsForDeletionLoop ps (acc @ [p]) = Inr r" by simp
    from Cons.IH[OF this] False \<open>c = ownedByDaemonSet p\<close> show ?thesis by simp
  qed
qed

lemma podsForDeletionLoop_total:
  "\<forall>p\<in>set ps. \<forall>owner\<in>set (podOwnerReferences p). orController owner \<noteq> None \<Longrightarrow>
   \<exists>r. podsForDeletionLoop ps acc = Inr r"
proof (induction ps arbitrary: acc)
  case Nil
  then show ?case by simp
next
  case (Cons p ps)
  then obtain c where "controlledByDaemonSet (podOwnerReferences p) = Inr c"
    using controlledByDaemonSet_total[of "podOwnerReferences p"] by auto
  with Cons show ?case by simp
qed

text \<open>
  When the filter returns, the movable set is the pods that are not owned by a
  daemon-set controller, in their order; and it returns when no owner reference has
  a nil \<open>Controller\<close>.
\<close>

theorem daemonset_filter_when_controllers_set:
  "(podsForDeletion allPods = Inr pods \<longrightarrow> pods = filter (\<lambda>p. \<not> ownedByDaemonSet p) allPods)
   \<and> ((\<forall>p\<in>set allPods. \<forall>owner\<in>set (podOwnerReferences p). orController owner \<noteq> None) \<longrightarrow>
        podsForDeletion allPods = Inr (filter (\<lambda>p. \<not> ownedByDaemonSet p) allPods))"
proof (intro conjI impI)
  assume "podsForDeletion allPods = Inr pods"
  then show "pods = filter (\<lambda>p. \<not> ownedByDaemonSet p) allPods"
    using podsForDeletionLoop_Inr[of allPods "[]" pods] by (simp add: podsForDeletion_def)
next
  assume "\<forall>p\<in>set allPods. \<forall>owner\<in>set (podOwnerReferences p). orController owner \<noteq> None"
  then obtain r where r: "podsForDeletionLoop allPods [] = Inr r"
    using podsForDeletionLoop_total by blast
  then show "podsForDeletion allPods = Inr (filter (\<lambda>p. \<not> ownedByDaemonSet p) allPods)"
    using podsForDeletionLoop_Inr[OF r] by (simp add: podsForDeletion_def)
qed

text \<open>
  At a daemon-set pod and a replica-set pod: the first is left out.
\<close>

theorem daemonset_filter_when_controllers_set_witness:
  "orController \<lparr>orKind = ''DaemonSet'', orController = Some True\<rparr> \<noteq> None
   \<and> orController \<lparr>orKind = ''ReplicaSet'', orController = Some True\<rparr> \<noteq> None
   \<and> ownedByDaemonSet podLogs \<and> \<not> ownedByDaemonSet podWeb
   \<and> podsForDeletion [podLogs, podWeb] = Inr [podWeb]"
proof -
  have h: "\<forall>p\<in>set [podLogs, podWeb]. \<forall>owner\<in>set (podOwnerReferences p). orController owner \<noteq> None"
    by (auto simp: podLogs_def podWeb_def)
  have o: "ownedByDaemonSet podLogs \<and> \<not> ownedByDaemonSet podWeb"
    by (simp add: ownedByDaemonSet_def podLogs_def podWeb_def)
  have "podsForDeletion [podLogs, podWeb] = Inr (filter (\<lambda>p. \<not> ownedByDaemonSet p) [podLogs, podWeb])"
    using daemonset_filter_when_controllers_set[of "[podLogs, podWeb]" "[]"] h by blast
  with o show ?thesis by simp
qed

subsection \<open>The cooldown over the ticks of a run\<close>

lemma run_nth:
  "i < length (run cfg ndt ws) \<Longrightarrow>
   i < length ws \<and>
   run cfg ndt ws ! i =
     tick (ws ! i) cfg (if i = 0 then ndt else nextDrainTime (run cfg ndt ws ! (i - 1)))"
proof (induction ws arbitrary: ndt i)
  case Nil
  then show ?case by simp
next
  case (Cons w ws)
  show ?case
  proof (cases i)
    case 0
    then show ?thesis by (simp add: Let_def)
  next
    case (Suc j)
    with Cons.prems have c: "crashed (tick w cfg ndt) = None"
      and j: "j < length (run cfg (nextDrainTime (tick w cfg ndt)) ws)"
      by (auto simp: Let_def split: option.splits)
    from Cons.IH[OF j] have jl: "j < length ws"
      and jn: "run cfg (nextDrainTime (tick w cfg ndt)) ws ! j =
        tick (ws ! j) cfg (if j = 0 then nextDrainTime (tick w cfg ndt)
                           else nextDrainTime (run cfg (nextDrainTime (tick w cfg ndt)) ws ! (j - 1)))"
      by simp_all
    show ?thesis
    proof (cases j)
      case 0
      with Suc c jl jn show ?thesis by (simp add: Let_def)
    next
      case (Suc k)
      with \<open>i = Suc j\<close> c jl jn show ?thesis by (simp add: Let_def)
    qed
  qed
qed

lemma drain_needs_open_gate:
  "\<exists>ev\<in>set (events (tick w cfg ndt)). isDrained ev \<Longrightarrow> ndt \<le> timeNow w"
  by (rule ccontr) (simp add: tick_def)

lemma run_quiet_keeps_cooldown:
  assumes "j < length (run cfg ndt ws)" and "i \<le> j"
    and "\<forall>k. i < k \<and> k \<le> j \<longrightarrow> \<not> (\<exists>ev\<in>set (events (run cfg ndt ws ! k)). isDrained ev)"
  shows "nextDrainTime (run cfg ndt ws ! j) = nextDrainTime (run cfg ndt ws ! i)"
  using assms
proof (induction j)
  case 0
  then show ?case by simp
next
  case (Suc j)
  show ?case
  proof (cases "i = Suc j")
    case True
    then show ?thesis by simp
  next
    case False
    with Suc.prems have ij: "i \<le> j" and jl: "j < length (run cfg ndt ws)" by simp_all
    have "\<forall>k. i < k \<and> k \<le> j \<longrightarrow> \<not> (\<exists>ev\<in>set (events (run cfg ndt ws ! k)). isDrained ev)"
      using Suc.prems(3) by (meson le_SucI)
    from Suc.IH[OF jl ij this]
    have ih: "nextDrainTime (run cfg ndt ws ! j) = nextDrainTime (run cfg ndt ws ! i)" .
    have rs: "run cfg ndt ws ! Suc j =
        tick (ws ! Suc j) cfg (nextDrainTime (run cfg ndt ws ! j))"
      using run_nth[OF Suc.prems(1)] by simp
    have "\<not> (\<exists>ev\<in>set (events (run cfg ndt ws ! Suc j)). isDrained ev)"
      using Suc.prems(3) ij by (meson le_imp_less_Suc le_refl)
    then have "filter isDrained (events (tick (ws ! Suc j) cfg (nextDrainTime (run cfg ndt ws ! j)))) = []"
      using rs unfolding filter_empty_conv by simp
    with tick_shape[of "ws ! Suc j" cfg "nextDrainTime (run cfg ndt ws ! j)"]
    have "nextDrainTime (tick (ws ! Suc j) cfg (nextDrainTime (run cfg ndt ws ! j))) =
        nextDrainTime (run cfg ndt ws ! j)"
      by auto
    with rs ih show ?thesis by simp
  qed
qed

text \<open>
  Between two ticks of a run that drain, with no draining tick between them,
  the cooldown has passed: the later tick starts no earlier than the clock read
  after the earlier drain plus \<open>nodeDrainDelay\<close>.
\<close>

theorem run_drains_after_cooldown:
  assumes "j < length (run cfg ndt ws)" and "i < j"
    and "\<exists>ev\<in>set (events (run cfg ndt ws ! i)). isDrained ev"
    and "\<exists>ev\<in>set (events (run cfg ndt ws ! j)). isDrained ev"
    and "\<forall>k. i < k \<and> k < j \<longrightarrow> \<not> (\<exists>ev\<in>set (events (run cfg ndt ws ! k)). isDrained ev)"
  shows "timeAfterDrain (ws ! i) + nodeDrainDelay cfg \<le> timeNow (ws ! j)"
proof -
  obtain m where m: "j = Suc m" using assms(2) by (cases j) auto
  have ml: "m < length (run cfg ndt ws)" and im: "i \<le> m" using assms(1,2) m by simp_all
  have i: "i < length (run cfg ndt ws)" using assms(1,2) by simp
  define prev where "prev = (if i = 0 then ndt else nextDrainTime (run cfg ndt ws ! (i - 1)))"
  have ri: "run cfg ndt ws ! i = tick (ws ! i) cfg prev"
    using run_nth[OF i] by (simp add: prev_def)
  have "filter isDrained (events (tick (ws ! i) cfg prev)) \<noteq> []"
    using assms(3) ri unfolding filter_empty_conv by simp
  with tick_shape[of "ws ! i" cfg prev]
  have "nextDrainTime (tick (ws ! i) cfg prev) = timeAfterDrain (ws ! i) + nodeDrainDelay cfg"
    by blast
  with ri have ni: "nextDrainTime (run cfg ndt ws ! i) = timeAfterDrain (ws ! i) + nodeDrainDelay cfg"
    by simp
  have "\<forall>k. i < k \<and> k \<le> m \<longrightarrow> \<not> (\<exists>ev\<in>set (events (run cfg ndt ws ! k)). isDrained ev)"
    using assms(5) m by (meson le_imp_less_Suc)
  from run_quiet_keeps_cooldown[OF ml im this]
  have nm: "nextDrainTime (run cfg ndt ws ! m) = nextDrainTime (run cfg ndt ws ! i)" .
  have rj: "run cfg ndt ws ! j = tick (ws ! j) cfg (nextDrainTime (run cfg ndt ws ! m))"
    using run_nth[OF assms(1)] m by simp
  have "nextDrainTime (run cfg ndt ws ! m) \<le> timeNow (ws ! j)"
    using assms(4) rj drain_needs_open_gate[of "ws ! j" cfg "nextDrainTime (run cfg ndt ws ! m)"]
    by simp
  with nm ni show ?thesis by simp
qed

lemma threeTicks_run:
  "run exampleConfig 0 threeTicks =
    [\<lparr>events = [NodeMapBuilt, SpotNodeMetrics, TaintReconcile, Planned onDemand1 None,
                Drained onDemand1 [podWeb\<lparr>podNodeName := []\<rparr>] None],
      crashed = None, nextDrainTime = 730\<rparr>,
     \<lparr>events = [WaitingDrainDelay], crashed = None, nextDrainTime = 730\<rparr>,
     \<lparr>events = [NodeMapBuilt, SpotNodeMetrics, TaintReconcile, Planned onDemand1 None,
                Drained onDemand1 [podWeb\<lparr>podNodeName := []\<rparr>] None],
      crashed = None, nextDrainTime = 1360\<rparr>]"
  by (simp add: threeTicks_def tick_defs ex_defs)

text \<open>
  At three ticks: a drain that has returned at 130, a tick at 110 that waits,
  and a drain in the tick at 730.
\<close>

theorem run_drains_after_cooldown_witness:
  "(2::nat) < length (run exampleConfig 0 threeTicks) \<and> (0::nat) < 2
   \<and> (\<exists>ev\<in>set (events (run exampleConfig 0 threeTicks ! 0)). isDrained ev)
   \<and> (\<exists>ev\<in>set (events (run exampleConfig 0 threeTicks ! 2)). isDrained ev)
   \<and> \<not> (\<exists>ev\<in>set (events (run exampleConfig 0 threeTicks ! 1)). isDrained ev)
   \<and> timeAfterDrain (threeTicks ! 0) + nodeDrainDelay exampleConfig \<le> timeNow (threeTicks ! 2)"
proof -
  have 1: "(2::nat) < length (run exampleConfig 0 threeTicks)" by (simp add: threeTicks_run)
  have 2: "(0::nat) < 2" by simp
  have 3: "\<exists>ev\<in>set (events (run exampleConfig 0 threeTicks ! 0)). isDrained ev"
    by (simp add: threeTicks_run)
  have 4: "\<exists>ev\<in>set (events (run exampleConfig 0 threeTicks ! 2)). isDrained ev"
    by (simp add: threeTicks_run)
  have 5: "\<not> (\<exists>ev\<in>set (events (run exampleConfig 0 threeTicks ! 1)). isDrained ev)"
    by (simp add: threeTicks_run)
  have 6: "\<forall>k. 0 < k \<and> k < 2 \<longrightarrow>
      \<not> (\<exists>ev\<in>set (events (run exampleConfig 0 threeTicks ! k)). isDrained ev)"
  proof (intro allI impI)
    fix k :: nat assume "0 < k \<and> k < 2"
    then have "k = 1" by simp
    with 5 show "\<not> (\<exists>ev\<in>set (events (run exampleConfig 0 threeTicks ! k)). isDrained ev)"
      by simp
  qed
  from run_drains_after_cooldown[OF 1 2 3 4 6] 1 2 3 4 5 show ?thesis by blast
qed


end
